theory Spec2Isabelle
  imports
    Main
    "HOL-Library.AList"
    "HOL-Library.Char_ord"
    "HOL-Library.List_Lexorder"
    "HOL-Library.Product_Lexorder"
    "HOL-Library.Multiset"
begin

section \<open>The DAG chain store of \<open>backbone/datastore/chain_store.py\<close>\<close>

text \<open>
  The development embeds the class \<open>Chain\<close> of \<open>chain_store.py\<close>: its constructor, the five
  update steps of \<open>add_block\<close>, the cached traversal \<open>__calc_terminal\<close>, the property
  \<open>frontier\<close> and \<open>reconcile\<close>.

  Python values are rendered as follows. Sequence numbers are Python integers (\<open>int\<close>). A
  short key is a Python \<open>str\<close> (\<open>string\<close>); tuples of integers and strings compare
  lexicographically, strings by code point, which is the order of \<open>Product_Lexorder\<close>,
  \<open>List_Lexorder\<close> and \<open>Char_ord\<close>. A \<open>dict\<close> is an association list in insertion order
  (looked up with \<open>map_of\<close>, written with \<open>AList.update\<close>), a \<open>set\<close> is a HOL set. Where the
  source iterates over a \<open>set\<close> the order of the elements is not fixed by the language; the
  model enumerates in ascending order (\<open>sorted_list_of_set\<close>). Every method takes the object
  state and returns it together with either the raised exception or the returned value, so
  that the mutations made before an exception are part of the model.
\<close>

subsection \<open>Types of \<open>utils\<close> (not part of the sources)\<close>

type_synonym ShortKey = string
type_synonym BlockLink = "int \<times> ShortKey"
type_synonym Links = "BlockLink list"
type_synonym Ranges = "(int \<times> int) list"

text \<open>
  \<open>ShortKey\<close>, \<open>Links\<close> and \<open>Ranges\<close> are imported from \<open>utils\<close> and used in the source both
  as type annotations and as casts around a value (\<open>Links(tuple(val))\<close>,
  \<open>ShortKey("30303030")\<close>). A cast of Python's \<open>typing\<close> returns its argument.
\<close>

definition ShortKey :: "string \<Rightarrow> ShortKey" where
  "ShortKey s = s"

definition Links :: "BlockLink list \<Rightarrow> Links" where
  "Links ls = ls"

definition Ranges :: "(int \<times> int) list \<Rightarrow> Ranges" where
  "Ranges rs = rs"

text \<open>
  Modelled from the spec: \<open>ranges\<close> and \<open>expand_ranges\<close> of \<open>utils\<close> are missing. The
  specification calls them \<open>compress\<close> and \<open>expand\<close>: \<open>compress\<close> folds a set of sequence
  numbers into the ascending sequence of its maximal runs \<open>(lo, hi)\<close>
  (\<open>compress({5,6,7,9,10}) = [(5,7),(9,10)]\<close>, the empty set gives the empty sequence), and
  \<open>expand\<close> is its inverse.
\<close>

fun compress_sorted :: "int list \<Rightarrow> Ranges" where
  "compress_sorted [] = []"
| "compress_sorted (x # xs) =
     (case compress_sorted xs of
        [] \<Rightarrow> [(x, x)]
      | (lo, hi) # rs \<Rightarrow> if x + 1 = lo then (x, hi) # rs else (x, x) # (lo, hi) # rs)"

definition ranges :: "int set \<Rightarrow> Ranges" where
  "ranges nums = Ranges (compress_sorted (sorted_list_of_set nums))"

definition expand_ranges :: "Ranges \<Rightarrow> int set" where
  "expand_ranges range_vals = \<Union> (set (map (\<lambda>(b, e). {b..e}) range_vals))"

subsection \<open>Exceptions\<close>

datatype error = RecursionError | TypeError | ValueError

subsection \<open>The LRU cache of \<open>cachetools\<close>\<close>

text \<open>
  \<open>cachetools.LRUCache(maxsize)\<close> with the default size function (every entry has size 1).
  The entries are kept from the least recently used to the most recently used. \<open>get\<close> of a
  present key makes it the most recently used one. \<open>__setitem__\<close> raises \<open>ValueError\<close> when
  one entry is larger than \<open>maxsize\<close>, evicts least recently used entries while a new key
  does not fit, stores the value and makes the key the most recently used one.
\<close>

record LRUCache =
  maxsize :: int
  items :: "(BlockLink \<times> BlockLink set) list"

definition LRUCache_init :: "int \<Rightarrow> LRUCache" where
  "LRUCache_init n = \<lparr>maxsize = n, items = []\<rparr>"

definition without_key :: "BlockLink \<Rightarrow> (BlockLink \<times> BlockLink set) list \<Rightarrow> (BlockLink \<times> BlockLink set) list" where
  "without_key k xs = filter (\<lambda>kv. fst kv \<noteq> k) xs"

definition cache_get :: "LRUCache \<Rightarrow> BlockLink \<Rightarrow> BlockLink set option \<times> LRUCache" where
  "cache_get tc k =
     (case map_of (items tc) k of
        None \<Rightarrow> (None, tc)
      | Some v \<Rightarrow> (Some v, tc\<lparr>items := without_key k (items tc) @ [(k, v)]\<rparr>))"

fun popitems :: "int \<Rightarrow> (BlockLink \<times> BlockLink set) list \<Rightarrow> (BlockLink \<times> BlockLink set) list" where
  "popitems n [] = []"
| "popitems n (kv # xs) = (if int (length (kv # xs)) + 1 > n then popitems n xs else kv # xs)"

definition cache_set :: "LRUCache \<Rightarrow> BlockLink \<Rightarrow> BlockLink set \<Rightarrow> error + LRUCache" where
  "cache_set tc k v =
     (if 1 > maxsize tc then Inl ValueError
      else if map_of (items tc) k = None
        then Inr (tc\<lparr>items := popitems (maxsize tc) (items tc) @ [(k, v)]\<rparr>)
        else Inr (tc\<lparr>items := without_key k (items tc) @ [(k, v)]\<rparr>))"

subsection \<open>Blocks, frontiers and the chain state\<close>

text \<open>
  \<open>PlexusBlock\<close> is defined outside the sources; \<open>add_block\<close> reads the five attributes
  below. \<open>shorten\<close> of \<open>utils\<close>, which derives the short key from the block hash, is a
  parameter \<open>sh\<close> of \<open>add_block\<close>.
\<close>

record PlexusBlock =
  previous :: Links
  links :: Links
  sequence_number :: int
  com_seq_num :: int
  hash :: string

record Frontier =
  f_terminal :: Links
  f_holes :: Ranges
  f_inconsistencies :: Links

record FrontierDiff =
  missing :: Ranges
  conflicts :: Links

record Chain =
  personal :: bool
  versions :: "(int \<times> ShortKey set) list"
  forward_pointers :: "(BlockLink \<times> BlockLink set) list"
  inconsistencies :: "BlockLink set"
  holes :: "int set"
  terminal :: Links
  max_known_seq_num :: int
  term_cache :: LRUCache

type_synonym 'a result = "(error + 'a) \<times> Chain"

definition Chain_init :: "bool \<Rightarrow> int \<Rightarrow> Chain" where
  "Chain_init is_personal_chain cache_num =
     \<lparr>personal = is_personal_chain,
      versions = [],
      forward_pointers = [],
      inconsistencies = {},
      holes = {},
      terminal = Links [(0, ShortKey ''30303030'')],
      max_known_seq_num = 0,
      term_cache = LRUCache_init cache_num\<rparr>"

subsection \<open>The update steps of \<open>add_block\<close>\<close>

definition get_next_link :: "Chain \<Rightarrow> BlockLink \<Rightarrow> Links option" where
  "get_next_link c link =
     (case map_of (forward_pointers c) link of
        None \<Rightarrow> None
      | Some val \<Rightarrow> if val = {} then None else Some (Links (sorted_list_of_set val)))"

text \<open>
  The inner \<open>while\<close> loop of \<open>_update_holes\<close>: it walks down from \<open>s\<close> while the height is
  not a key of \<open>versions\<close> and is at least 1.
\<close>

function walk_down :: "int \<Rightarrow> Chain \<Rightarrow> Chain" where
  "walk_down s c =
     (if map_of (versions c) s = None \<and> s \<ge> 1
      then walk_down (s - 1) (c\<lparr>holes := insert s (holes c)\<rparr>)
      else c)"
  by pat_completeness auto
termination
  by (relation "measure (\<lambda>(s, c). nat s)") auto

definition update_holes :: "int \<Rightarrow> Links \<Rightarrow> Chain \<Rightarrow> Chain" where
  "update_holes block_seq_num block_links c =
     fold (\<lambda>(s, h) c'. if map_of (versions c') s = None then walk_down s c' else c')
       block_links
       (if block_seq_num \<in> holes c then c\<lparr>holes := holes c - {block_seq_num}\<rparr> else c)"

definition update_inconsistencies :: "Links \<Rightarrow> int \<Rightarrow> ShortKey \<Rightarrow> Chain \<Rightarrow> Chain" where
  "update_inconsistencies block_links block_seq_num block_hash c =
     (let c1 = fold (\<lambda>(seq, hash_val) c'.
                  case map_of (versions c') seq of
                    None \<Rightarrow> c'
                  | Some vs \<Rightarrow>
                      if hash_val \<in> vs then c'
                      else c'\<lparr>inconsistencies := insert (seq, hash_val) (inconsistencies c')\<rparr>)
                block_links c
      in if (block_seq_num, block_hash) \<in> inconsistencies c1
         then c1\<lparr>inconsistencies := inconsistencies c1 - {(block_seq_num, block_hash)}\<rparr>
         else c1)"

text \<open>
  \<open>_update_forward_pointers\<close> creates an empty set for a parent link that is not yet a key
  and then adds the block to the set of that key; the two statements are one map update here.
\<close>

definition update_forward_pointers :: "Links \<Rightarrow> int \<Rightarrow> ShortKey \<Rightarrow> Chain \<Rightarrow> Chain" where
  "update_forward_pointers block_links block_seq_num block_hash c =
     fold (\<lambda>link c'.
            c'\<lparr>forward_pointers := AList.update link
                 (insert (block_seq_num, block_hash)
                   (case map_of (forward_pointers c') link of
                      None \<Rightarrow> {}
                    | Some children \<Rightarrow> children))
                 (forward_pointers c')\<rparr>)
       block_links c"

definition update_versions :: "int \<Rightarrow> ShortKey \<Rightarrow> Chain \<Rightarrow> Chain" where
  "update_versions block_seq_num block_hash c =
     (case map_of (versions c) block_seq_num of
        None \<Rightarrow>
          c\<lparr>versions := AList.update block_seq_num {block_hash} (versions c),
            max_known_seq_num :=
              (if block_seq_num > max_known_seq_num c then block_seq_num
               else max_known_seq_num c)\<rparr>
      | Some vs \<Rightarrow>
          c\<lparr>versions := AList.update block_seq_num (insert block_hash vs) (versions c)\<rparr>)"

subsection \<open>The cached traversal \<open>__calc_terminal\<close>\<close>

text \<open>
  The traversal calls itself on the children of a link, so it does not terminate on a cycle
  of forward pointers, and Python ends a too deep recursion with \<open>RecursionError\<close>. The
  model counts the frames that are still allowed: \<open>calc_terminal d\<close> may nest \<open>d\<close> calls. The
  two \<open>for\<close> loops are functions over the list being iterated; they receive the traversal of
  the next frame as the argument \<open>rec\<close>.

  \<open>for_cached\<close> is the loop over a cached set \<open>cached_next\<close>. It carries the sets \<open>terminal\<close> (here \<open>tset\<close>)
  and \<open>new_cache\<close> (\<open>None\<close> until an element with a child has been met).
\<close>

fun for_cached ::
  "(Links option \<Rightarrow> Chain \<Rightarrow> BlockLink set result) \<Rightarrow> BlockLink set \<Rightarrow> BlockLink list
   \<Rightarrow> BlockLink set \<Rightarrow> BlockLink set option \<Rightarrow> Chain
   \<Rightarrow> (BlockLink set \<times> BlockLink set option) result" where
  "for_cached rec cached_next [] tset new_cache c = (Inr (tset, new_cache), c)"
| "for_cached rec cached_next (cached_val # vals) tset new_cache c =
     (case get_next_link c cached_val of
        None \<Rightarrow> for_cached rec cached_next vals (tset \<union> cached_next) new_cache c
      | Some term_next \<Rightarrow>
          (case rec (Some term_next) c of
             (Inl e, c1) \<Rightarrow> (Inl e, c1)
           | (Inr new_val, c1) \<Rightarrow>
               for_cached rec cached_next vals (tset \<union> new_val)
                 (Some ((case new_cache of None \<Rightarrow> {} | Some nc \<Rightarrow> nc) \<union> new_val)) c1))"

text \<open>Python's truth value of an optional set: \<open>None\<close> and the empty set are false.\<close>

fun truthy :: "BlockLink set option \<Rightarrow> bool" where
  "truthy None = False"
| "truthy (Some s) = (s \<noteq> {})"

fun for_links ::
  "(Links option \<Rightarrow> Chain \<Rightarrow> BlockLink set result) \<Rightarrow> BlockLink list \<Rightarrow> BlockLink set
   \<Rightarrow> Chain \<Rightarrow> BlockLink set result" where
  "for_links rec [] tset c = (Inr tset, c)"
| "for_links rec (blk_link # rest) tset c =
     (if map_of (forward_pointers c) blk_link = None
      then for_links rec rest (insert blk_link tset) c
      else
        (case cache_get (term_cache c) blk_link of (cached_next, tc) \<Rightarrow>
           if truthy cached_next
           then
             (case for_cached rec (the cached_next) (sorted_list_of_set (the cached_next))
                     tset None (c\<lparr>term_cache := tc\<rparr>) of
                (Inl e, c1) \<Rightarrow> (Inl e, c1)
              | (Inr (tset1, new_cache), c1) \<Rightarrow>
                  if truthy new_cache
                  then
                    (case cache_set (term_cache c1) blk_link (the new_cache) of
                       Inl e \<Rightarrow> (Inl e, c1)
                     | Inr tc1 \<Rightarrow> for_links rec rest tset1 (c1\<lparr>term_cache := tc1\<rparr>))
                  else for_links rec rest tset1 c1)
           else
             (case rec (get_next_link (c\<lparr>term_cache := tc\<rparr>) blk_link) (c\<lparr>term_cache := tc\<rparr>) of
                (Inl e, c1) \<Rightarrow> (Inl e, c1)
              | (Inr new_term, c1) \<Rightarrow>
                  (case cache_set (term_cache c1) blk_link new_term of
                     Inl e \<Rightarrow> (Inl e, c1)
                   | Inr tc1 \<Rightarrow>
                       for_links rec rest (tset \<union> new_term) (c1\<lparr>term_cache := tc1\<rparr>)))))"

text \<open>
  A call with \<open>None\<close> (the result of \<open>get_next_link\<close> for a key with an empty set) fails
  with \<open>TypeError\<close> when the \<open>for\<close> loop starts.
\<close>

primrec calc_terminal :: "nat \<Rightarrow> Links option \<Rightarrow> Chain \<Rightarrow> BlockLink set result" where
  "calc_terminal 0 current c = (Inl RecursionError, c)"
| "calc_terminal (Suc d) current c =
     (case current of
        None \<Rightarrow> (Inl TypeError, c)
      | Some ls \<Rightarrow> for_links (calc_terminal d) ls {} c)"

definition update_terminal :: "nat \<Rightarrow> int \<Rightarrow> ShortKey \<Rightarrow> Chain \<Rightarrow> unit result" where
  "update_terminal d block_seq_num block_short_hash c =
     (case calc_terminal d (Some (Links [(block_seq_num, block_short_hash)])) c of
        (Inl e, c1) \<Rightarrow> (Inl e, c1)
      | (Inr new_term, c1) \<Rightarrow>
          (case calc_terminal d (Some (terminal c1)) c1 of
             (Inl e, c2) \<Rightarrow> (Inl e, c2)
           | (Inr from_old, c2) \<Rightarrow>
               (Inr (), c2\<lparr>terminal := Links (sorted_list_of_set (new_term \<union> from_old))\<rparr>)))"

subsection \<open>\<open>add_block\<close>, \<open>frontier\<close> and \<open>reconcile\<close>\<close>

definition add_block :: "(string \<Rightarrow> ShortKey) \<Rightarrow> nat \<Rightarrow> PlexusBlock \<Rightarrow> Chain \<Rightarrow> unit result" where
  "add_block sh d block c =
     (let block_links = (if personal c then previous block else links block);
          block_seq_num = (if personal c then sequence_number block else com_seq_num block);
          block_hash = sh (hash block);
          c1 = update_versions block_seq_num block_hash c;
          c2 = update_forward_pointers block_links block_seq_num block_hash c1;
          c3 = update_holes block_seq_num block_links c2;
          c4 = update_inconsistencies block_links block_seq_num block_hash c3
      in update_terminal d block_seq_num block_hash c4)"

text \<open>
  A caller's loop \<open>for b in blocks: chain.add_block(b)\<close>; an exception ends it.
\<close>

fun add_blocks :: "(string \<Rightarrow> ShortKey) \<Rightarrow> nat \<Rightarrow> PlexusBlock list \<Rightarrow> Chain \<Rightarrow> unit result" where
  "add_blocks sh d [] c = (Inr (), c)"
| "add_blocks sh d (b # bs) c =
     (case add_block sh d b c of
        (Inl e, c1) \<Rightarrow> (Inl e, c1)
      | (Inr u, c1) \<Rightarrow> add_blocks sh d bs c1)"

definition frontier :: "Chain \<Rightarrow> Frontier \<times> Chain" where
  "frontier c =
     (\<lparr>f_terminal = terminal c,
       f_holes = ranges (holes c),
       f_inconsistencies = Links (sorted_list_of_set (inconsistencies c))\<rparr>, c)"

text \<open>\<open>max\<close> of a tuple raises \<open>ValueError\<close> on the empty tuple.\<close>

fun py_max :: "Links \<Rightarrow> error + BlockLink" where
  "py_max [] = Inl ValueError"
| "py_max (x # xs) = Inr (fold max xs x)"

text \<open>
  The test \<open>t[0] not in frontier.holes\<close> looks for an integer among the elements of a tuple
  of pairs. Python's \<open>in\<close> compares with \<open>==\<close>, and an integer never equals a tuple; the two
  kinds of value are the constructors of \<open>py\<close>.
\<close>

datatype py = PyInt int | PyPair int int

definition escalates :: "Frontier \<Rightarrow> BlockLink \<Rightarrow> bool" where
  "escalates front t =
     (t \<in> set (f_terminal front)
      \<and> t \<notin> set (f_inconsistencies front)
      \<and> PyInt (fst t) \<notin> set (map (\<lambda>(b, e). PyPair b e) (f_holes front)))"

fun for_inconsistencies ::
  "nat \<Rightarrow> Frontier \<Rightarrow> BlockLink list \<Rightarrow> BlockLink set \<Rightarrow> Chain \<Rightarrow> BlockLink set result" where
  "for_inconsistencies d front [] confl c = (Inr confl, c)"
| "for_inconsistencies d front (i # rest) confl c =
     (case calc_terminal d (Some (Links [i])) c of
        (Inl e, c1) \<Rightarrow> (Inl e, c1)
      | (Inr ts, c1) \<Rightarrow>
          for_inconsistencies d front rest
            (fold (\<lambda>t cs. if escalates front t then insert i cs else cs)
               (sorted_list_of_set ts) confl)
            c1)"

definition reconcile :: "nat \<Rightarrow> Frontier \<Rightarrow> Chain \<Rightarrow> FrontierDiff result" where
  "reconcile d front c =
     (let front_holes = expand_ranges (f_holes front) in
      case py_max (f_terminal front) of
        Inl e \<Rightarrow> (Inl e, c)
      | Inr m \<Rightarrow>
          (let max_term_seq = fst m;
               front_known_seq = expand_ranges (Ranges [(1, max_term_seq)]) - front_holes;
               peer_known_seq = expand_ranges (Ranges [(1, max_known_seq_num c)]) - holes c;
               f_diff = front_known_seq - peer_known_seq;
               missing_ranges = ranges f_diff;
               confl = Set.filter
                 (\<lambda>(s, h). case map_of (versions c) s of None \<Rightarrow> False | Some vs \<Rightarrow> h \<notin> vs)
                 (set (f_terminal front))
           in case for_inconsistencies d front (sorted_list_of_set (inconsistencies c))
                     confl c of
                (Inl e, c1) \<Rightarrow> (Inl e, c1)
              | (Inr confl1, c1) \<Rightarrow>
                  (Inr \<lparr>missing = missing_ranges,
                        conflicts = Links (sorted_list_of_set confl1)\<rparr>, c1)))"

subsection \<open>Notions used in the proofs\<close>

text \<open>
  \<open>cache_only c c'\<close>: the state \<open>c'\<close> differs from \<open>c\<close> at most in \<open>term_cache\<close>. The
  functions \<open>holes_step\<close>, \<open>inc_step\<close> and \<open>fp_step\<close> are the bodies of the \<open>for\<close> loops of
  \<open>_update_holes\<close>, \<open>_update_inconsistencies\<close> and \<open>_update_forward_pointers\<close>;
  \<open>block_links_of\<close> and \<open>block_seq_of\<close> are the link set and the sequence number that
  \<open>add_block\<close> selects by the chain mode.
\<close>

definition cache_only :: "Chain \<Rightarrow> Chain \<Rightarrow> bool" where
  "cache_only c c' = (c' = c\<lparr>term_cache := term_cache c'\<rparr>)"

definition holes_step :: "int \<times> ShortKey \<Rightarrow> Chain \<Rightarrow> Chain" where
  "holes_step = (\<lambda>(s, h) c'. if map_of (versions c') s = None then walk_down s c' else c')"

definition fp_step ::
  "BlockLink \<Rightarrow> BlockLink \<Rightarrow> (BlockLink \<times> BlockLink set) list \<Rightarrow> (BlockLink \<times> BlockLink set) list" where
  "fp_step child link m =
     AList.update link
       (insert child (case map_of m link of None \<Rightarrow> {} | Some children \<Rightarrow> children)) m"

definition inc_step :: "int \<times> ShortKey \<Rightarrow> Chain \<Rightarrow> Chain" where
  "inc_step = (\<lambda>(seq, hash_val) c'.
       case map_of (versions c') seq of
         None \<Rightarrow> c'
       | Some vs \<Rightarrow>
           if hash_val \<in> vs then c'
           else c'\<lparr>inconsistencies := insert (seq, hash_val) (inconsistencies c')\<rparr>)"

definition block_links_of :: "Chain \<Rightarrow> PlexusBlock \<Rightarrow> Links" where
  "block_links_of c block = (if personal c then previous block else links block)"

definition block_seq_of :: "Chain \<Rightarrow> PlexusBlock \<Rightarrow> int" where
  "block_seq_of c block = (if personal c then sequence_number block else com_seq_num block)"

subsection \<open>Blocks and frontiers of the examples\<close>

text \<open>
  \<open>block_of s ls h\<close> is a block with sequence number \<open>s\<close>, parent links \<open>ls\<close> and hash
  \<open>h\<close>; its personal and its community attributes are the same, so that it is indexed
  alike in both chain modes. In the examples \<open>shorten\<close> is the identity, that is, the hash
  of a block is written as its short key. \<open>genesis\<close> is the link of the constructor.
\<close>

definition block_of :: "int \<Rightarrow> Links \<Rightarrow> string \<Rightarrow> PlexusBlock" where
  "block_of s ls h =
     \<lparr>previous = ls, links = ls, sequence_number = s, com_seq_num = s, hash = h\<rparr>"

definition genesis :: BlockLink where
  "genesis = (0, ShortKey ''30303030'')"

definition ingest :: "PlexusBlock list \<Rightarrow> unit result" where
  "ingest bs = add_blocks (\<lambda>h. h) 1000 bs (Chain_init False 100000)"

section \<open>Lemmas\<close>

subsection \<open>What the traversal leaves unchanged\<close>

lemma cache_only_refl: "cache_only c c"
  by (simp add: cache_only_def)

lemma cache_only_upd: "cache_only c (c\<lparr>term_cache := tc\<rparr>)"
  by (simp add: cache_only_def)

lemma cache_only_trans: "cache_only a b \<Longrightarrow> cache_only b c \<Longrightarrow> cache_only a c"
  by (cases a; cases b; cases c; simp add: cache_only_def)

lemma cache_only_fields:
  assumes "cache_only c c'"
  shows "personal c' = personal c" "versions c' = versions c"
    "forward_pointers c' = forward_pointers c" "inconsistencies c' = inconsistencies c"
    "holes c' = holes c" "terminal c' = terminal c"
    "max_known_seq_num c' = max_known_seq_num c"
  using assms by (cases c; cases c'; simp add: cache_only_def)+

lemma for_cached_frame:
  assumes rec: "\<And>cur c. cache_only c (snd (rec cur c))"
  shows "cache_only c (snd (for_cached rec cn vals t nc c))"
proof (induction vals arbitrary: t nc c)
  case Nil
  show ?case by (simp add: cache_only_refl)
next
  case (Cons v vals)
  show ?case
  proof (cases "get_next_link c v")
    case None
    then show ?thesis using Cons.IH by simp
  next
    case (Some tn)
    obtain r c1 where r: "rec (Some tn) c = (r, c1)"
      by (cases "rec (Some tn) c")
    have f1: "cache_only c c1"
      using rec [of c "Some tn"] r by simp
    show ?thesis
    proof (cases r)
      case (Inl e)
      then show ?thesis using Some r f1 by simp
    next
      case (Inr nv)
      have "cache_only c1 (snd (for_cached rec cn vals (t \<union> nv)
              (Some ((case nc of None \<Rightarrow> {} | Some x \<Rightarrow> x) \<union> nv)) c1))"
        by (rule Cons.IH)
      with f1 have "cache_only c (snd (for_cached rec cn vals (t \<union> nv)
              (Some ((case nc of None \<Rightarrow> {} | Some x \<Rightarrow> x) \<union> nv)) c1))"
        by (rule cache_only_trans)
      then show ?thesis using Some r Inr by simp
    qed
  qed
qed

lemma for_links_frame:
  assumes rec: "\<And>cur c. cache_only c (snd (rec cur c))"
  shows "cache_only c (snd (for_links rec ls t c))"
proof (induction ls arbitrary: t c)
  case Nil
  show ?case by (simp add: cache_only_refl)
next
  case (Cons l ls)
  note IH = Cons.IH
  show ?case
  proof (cases "map_of (forward_pointers c) l = None")
    case True
    then show ?thesis using IH by simp
  next
    case False
    obtain cached tc where g: "cache_get (term_cache c) l = (cached, tc)"
      by (cases "cache_get (term_cache c) l")
    let ?c0 = "c\<lparr>term_cache := tc\<rparr>"
    have f0: "cache_only c ?c0" by (rule cache_only_upd)
    show ?thesis
    proof (cases "truthy cached")
      case True
      obtain r c1 where r: "for_cached rec (the cached) (sorted_list_of_set (the cached)) t None ?c0 = (r, c1)"
        by (cases "for_cached rec (the cached) (sorted_list_of_set (the cached)) t None ?c0")
      have "cache_only ?c0 c1"
        using for_cached_frame [where rec = rec and c = ?c0 and cn = "the cached"
            and vals = "sorted_list_of_set (the cached)" and t = t and nc = None, OF rec] r
        by simp
      with f0 have f1: "cache_only c c1" by (rule cache_only_trans)
      show ?thesis
      proof (cases r)
        case (Inl e)
        then show ?thesis using True r f1 by (simp add: False g)
      next
        case (Inr p)
        obtain t1 nc where p: "p = (t1, nc)" by (cases p)
        show ?thesis
        proof (cases "truthy nc")
          case nct: True
          show ?thesis
          proof (cases "cache_set (term_cache c1) l (the nc)")
            case (Inl e)
            then show ?thesis using True r Inr p nct f1 by (simp add: False g)
          next
            case (Inr tc1)
            have "cache_only c1 (c1\<lparr>term_cache := tc1\<rparr>)" by (rule cache_only_upd)
            with f1 have "cache_only c (c1\<lparr>term_cache := tc1\<rparr>)" by (rule cache_only_trans)
            moreover have "cache_only (c1\<lparr>term_cache := tc1\<rparr>) (snd (for_links rec ls t1 (c1\<lparr>term_cache := tc1\<rparr>)))"
              by (rule IH)
            ultimately have "cache_only c (snd (for_links rec ls t1 (c1\<lparr>term_cache := tc1\<rparr>)))"
              by (rule cache_only_trans)
            then show ?thesis using True r \<open>r = Inr p\<close> p nct Inr by (simp add: False g)
          qed
        next
          case nct: False
          have "cache_only c1 (snd (for_links rec ls t1 c1))" by (rule IH)
          with f1 have "cache_only c (snd (for_links rec ls t1 c1))" by (rule cache_only_trans)
          then show ?thesis using True r Inr p nct by (simp add: False g)
        qed
      qed
    next
      case nt: False
      obtain r c1 where r: "rec (get_next_link ?c0 l) ?c0 = (r, c1)"
        by (cases "rec (get_next_link ?c0 l) ?c0")
      have "cache_only ?c0 c1"
        using rec [of ?c0 "get_next_link ?c0 l"] r by simp
      with f0 have f1: "cache_only c c1" by (rule cache_only_trans)
      show ?thesis
      proof (cases r)
        case (Inl e)
        then show ?thesis using nt r f1 by (simp add: False g)
      next
        case (Inr nt1)
        show ?thesis
        proof (cases "cache_set (term_cache c1) l nt1")
          case (Inl e)
          then show ?thesis using nt r Inr f1 by (simp add: False g)
        next
          case tc1: (Inr tc1)
          have "cache_only c1 (c1\<lparr>term_cache := tc1\<rparr>)" by (rule cache_only_upd)
          with f1 have "cache_only c (c1\<lparr>term_cache := tc1\<rparr>)" by (rule cache_only_trans)
          moreover have "cache_only (c1\<lparr>term_cache := tc1\<rparr>) (snd (for_links rec ls (t \<union> nt1) (c1\<lparr>term_cache := tc1\<rparr>)))"
            by (rule IH)
          ultimately have "cache_only c (snd (for_links rec ls (t \<union> nt1) (c1\<lparr>term_cache := tc1\<rparr>)))"
            by (rule cache_only_trans)
          then show ?thesis using nt r Inr tc1 by (simp add: False g)
        qed
      qed
    qed
  qed
qed

lemma calc_terminal_frame: "cache_only c (snd (calc_terminal d cur c))"
proof (induction d arbitrary: cur c)
  case 0
  show ?case by (simp add: cache_only_refl)
next
  case (Suc d)
  show ?case
  proof (cases cur)
    case None
    then show ?thesis by (simp add: cache_only_refl)
  next
    case (Some ls)
    then show ?thesis using for_links_frame [of "calc_terminal d", OF Suc.IH] by simp
  qed
qed

lemma for_inconsistencies_frame:
  "cache_only c (snd (for_inconsistencies d front is confl c))"
proof (induction "is" arbitrary: confl c)
  case Nil
  show ?case by (simp add: cache_only_refl)
next
  case (Cons i rest)
  obtain r c1 where r: "calc_terminal d (Some (Links [i])) c = (r, c1)"
    by (cases "calc_terminal d (Some (Links [i])) c")
  have f1: "cache_only c c1"
    using calc_terminal_frame [of c d "Some (Links [i])"] r by simp
  show ?case
  proof (cases r)
    case (Inl e)
    then show ?thesis using r f1 by simp
  next
    case (Inr ts)
    have "cache_only c1 (snd (for_inconsistencies d front rest
            (fold (\<lambda>t cs. if escalates front t then insert i cs else cs) (sorted_list_of_set ts) confl) c1))"
      by (rule Cons.IH)
    with f1 have "cache_only c (snd (for_inconsistencies d front rest
            (fold (\<lambda>t cs. if escalates front t then insert i cs else cs) (sorted_list_of_set ts) confl) c1))"
      by (rule cache_only_trans)
    then show ?thesis using r Inr by simp
  qed
qed

lemma reconcile_frame: "cache_only c (snd (reconcile d front c))"
proof (cases "py_max (f_terminal front)")
  case (Inl e)
  then show ?thesis by (simp add: reconcile_def cache_only_refl)
next
  case (Inr m)
  define confl where "confl = Set.filter
      (\<lambda>(s, h). case map_of (versions c) s of None \<Rightarrow> False | Some vs \<Rightarrow> h \<notin> vs)
      (set (f_terminal front))"
  obtain r c1 where r:
    "for_inconsistencies d front (sorted_list_of_set (inconsistencies c)) confl c = (r, c1)"
    by (cases "for_inconsistencies d front (sorted_list_of_set (inconsistencies c)) confl c")
  have "cache_only c c1"
    using for_inconsistencies_frame [of c d front "sorted_list_of_set (inconsistencies c)" confl] r
    by simp
  then show ?thesis
    using Inr r unfolding reconcile_def Let_def confl_def [symmetric]
    by (cases r) simp_all
qed

subsection \<open>The fields written by each update step\<close>

declare walk_down.simps [simp del]

lemma walk_down_step:
  "map_of (versions c) s = None \<Longrightarrow> s \<ge> 1 \<Longrightarrow>
   walk_down s c = walk_down (s - 1) (c\<lparr>holes := insert s (holes c)\<rparr>)"
  by (subst walk_down.simps) simp

lemma walk_down_stop: "\<not> (map_of (versions c) s = None \<and> s \<ge> 1) \<Longrightarrow> walk_down s c = c"
  by (subst walk_down.simps) auto

lemma walk_down_holes_only: "\<exists>hs. walk_down s c = c\<lparr>holes := hs\<rparr>"
proof (induction s c rule: walk_down.induct)
  case (1 s c)
  show ?case
  proof (cases "map_of (versions c) s = None \<and> s \<ge> 1")
    case True
    with 1 obtain hs where "walk_down (s - 1) (c\<lparr>holes := insert s (holes c)\<rparr>) = c\<lparr>holes := insert s (holes c)\<rparr>\<lparr>holes := hs\<rparr>"
      by blast
    then have "walk_down s c = c\<lparr>holes := hs\<rparr>"
      using True by (simp add: walk_down_step)
    then show ?thesis by blast
  next
    case False
    then have "walk_down s c = c\<lparr>holes := holes c\<rparr>"
      by (simp add: walk_down_stop)
    then show ?thesis by blast
  qed
qed

lemma walk_down_new_holes:
  "x \<in> holes (walk_down s c) \<Longrightarrow> x \<in> holes c \<or> map_of (versions c) x = None"
proof (induction s c rule: walk_down.induct)
  case (1 s c)
  show ?case
  proof (cases "map_of (versions c) s = None \<and> s \<ge> 1")
    case True
    then have "walk_down s c = walk_down (s - 1) (c\<lparr>holes := insert s (holes c)\<rparr>)"
      by (simp add: walk_down_step)
    with "1.prems" have "x \<in> holes (walk_down (s - 1) (c\<lparr>holes := insert s (holes c)\<rparr>))"
      by simp
    with "1.IH" [OF True] have "x \<in> insert s (holes c) \<or> map_of (versions c) x = None"
      by simp
    with True show ?thesis by auto
  next
    case False
    then have "walk_down s c = c"
      by (simp add: walk_down_stop)
    with "1.prems" show ?thesis by simp
  qed
qed

lemma walk_down_finite: "finite (holes c) \<Longrightarrow> finite (holes (walk_down s c))"
proof (induction s c rule: walk_down.induct)
  case (1 s c)
  show ?case
  proof (cases "map_of (versions c) s = None \<and> s \<ge> 1")
    case True
    then have "walk_down s c = walk_down (s - 1) (c\<lparr>holes := insert s (holes c)\<rparr>)"
      by (simp add: walk_down_step)
    with "1.IH" [OF True] "1.prems" show ?thesis by simp
  next
    case False
    then have "walk_down s c = c"
      by (simp add: walk_down_stop)
    with "1.prems" show ?thesis by simp
  qed
qed

lemma holes_step_holes_only: "\<exists>hs. holes_step l c = c\<lparr>holes := hs\<rparr>"
proof (cases l)
  case (Pair s h)
  show ?thesis
  proof (cases "map_of (versions c) s = None")
    case True
    then show ?thesis using walk_down_holes_only [of s c] Pair by (simp add: holes_step_def)
  next
    case False
    have "holes_step l c = c\<lparr>holes := holes c\<rparr>" by (simp add: holes_step_def Pair False)
    then show ?thesis by blast
  qed
qed

lemma holes_step_new_holes:
  "x \<in> holes (holes_step l c) \<Longrightarrow> x \<in> holes c \<or> map_of (versions c) x = None"
  using walk_down_new_holes [of x "fst l" c]
  by (cases l) (simp add: holes_step_def split: if_splits)

lemma holes_step_finite: "finite (holes c) \<Longrightarrow> finite (holes (holes_step l c))"
  using walk_down_finite [of c "fst l"]
  by (cases l) (simp add: holes_step_def)

lemma fold_holes_step_holes_only: "\<exists>hs. fold holes_step ls c = c\<lparr>holes := hs\<rparr>"
proof (induction ls arbitrary: c)
  case Nil
  have "fold holes_step [] c = c\<lparr>holes := holes c\<rparr>" by simp
  then show ?case by blast
next
  case (Cons l ls)
  obtain h1 where h1: "holes_step l c = c\<lparr>holes := h1\<rparr>"
    using holes_step_holes_only by blast
  obtain h2 where "fold holes_step ls (c\<lparr>holes := h1\<rparr>) = c\<lparr>holes := h1\<rparr>\<lparr>holes := h2\<rparr>"
    using Cons.IH by blast
  then have "fold holes_step (l # ls) c = c\<lparr>holes := h2\<rparr>" using h1 by simp
  then show ?case by blast
qed

lemma fold_holes_step_new_holes:
  "x \<in> holes (fold holes_step ls c) \<Longrightarrow> x \<in> holes c \<or> map_of (versions c) x = None"
proof (induction ls arbitrary: c)
  case Nil
  then show ?case by simp
next
  case (Cons l ls)
  obtain h1 where h1: "holes_step l c = c\<lparr>holes := h1\<rparr>"
    using holes_step_holes_only by blast
  from Cons.prems have "x \<in> holes (fold holes_step ls (holes_step l c))" by simp
  then have "x \<in> holes (holes_step l c) \<or> map_of (versions (holes_step l c)) x = None"
    by (rule Cons.IH)
  moreover have "versions (holes_step l c) = versions c" using h1 by simp
  ultimately show ?case using holes_step_new_holes [of x l c] by auto
qed

lemma fold_holes_step_finite:
  "finite (holes c) \<Longrightarrow> finite (holes (fold holes_step ls c))"
  by (induction ls arbitrary: c) (simp_all add: holes_step_finite)

lemma update_holes_eq:
  "update_holes n ls c =
     fold holes_step ls (if n \<in> holes c then c\<lparr>holes := holes c - {n}\<rparr> else c)"
  by (simp add: update_holes_def holes_step_def)

lemma update_holes_holes_only: "\<exists>hs. update_holes n ls c = c\<lparr>holes := hs\<rparr>"
proof -
  let ?c0 = "if n \<in> holes c then c\<lparr>holes := holes c - {n}\<rparr> else c"
  obtain hs where "fold holes_step ls ?c0 = ?c0\<lparr>holes := hs\<rparr>"
    using fold_holes_step_holes_only by blast
  then have "update_holes n ls c = c\<lparr>holes := hs\<rparr>"
    by (simp add: update_holes_eq split: if_splits)
  then show ?thesis by blast
qed

lemma update_holes_fields [simp]:
  "personal (update_holes n ls c) = personal c"
  "versions (update_holes n ls c) = versions c"
  "forward_pointers (update_holes n ls c) = forward_pointers c"
  "inconsistencies (update_holes n ls c) = inconsistencies c"
  "terminal (update_holes n ls c) = terminal c"
  "max_known_seq_num (update_holes n ls c) = max_known_seq_num c"
  "term_cache (update_holes n ls c) = term_cache c"
  using update_holes_holes_only [of n ls c] by auto

lemma update_holes_new_holes:
  assumes "x \<in> holes (update_holes n ls c)"
  shows "(x \<in> holes c \<and> x \<noteq> n) \<or> map_of (versions c) x = None"
proof -
  let ?c0 = "if n \<in> holes c then c\<lparr>holes := holes c - {n}\<rparr> else c"
  from assms have "x \<in> holes (fold holes_step ls ?c0)" by (simp add: update_holes_eq)
  then have "x \<in> holes ?c0 \<or> map_of (versions ?c0) x = None" by (rule fold_holes_step_new_holes)
  then show ?thesis by (auto split: if_splits)
qed

lemma update_holes_finite:
  "finite (holes c) \<Longrightarrow> finite (holes (update_holes n ls c))"
  by (simp add: update_holes_eq fold_holes_step_finite)

lemma update_versions_fields [simp]:
  "personal (update_versions n h c) = personal c"
  "versions (update_versions n h c) =
     AList.update n (insert h (case map_of (versions c) n of None \<Rightarrow> {} | Some vs \<Rightarrow> vs))
       (versions c)"
  "forward_pointers (update_versions n h c) = forward_pointers c"
  "inconsistencies (update_versions n h c) = inconsistencies c"
  "holes (update_versions n h c) = holes c"
  "terminal (update_versions n h c) = terminal c"
  "max_known_seq_num (update_versions n h c) =
     (if map_of (versions c) n = None \<and> n > max_known_seq_num c then n else max_known_seq_num c)"
  "term_cache (update_versions n h c) = term_cache c"
  by (simp_all add: update_versions_def split: option.splits)

lemma update_forward_pointers_eq:
  "update_forward_pointers ls n h c =
     c\<lparr>forward_pointers := fold (fp_step (n, h)) ls (forward_pointers c)\<rparr>"
proof (induction ls arbitrary: c)
  case Nil
  show ?case by (simp add: update_forward_pointers_def)
next
  case (Cons l ls)
  let ?c1 = "c\<lparr>forward_pointers := fp_step (n, h) l (forward_pointers c)\<rparr>"
  have "update_forward_pointers (l # ls) n h c = update_forward_pointers ls n h ?c1"
    by (simp add: update_forward_pointers_def fp_step_def)
  also have "\<dots> = ?c1\<lparr>forward_pointers := fold (fp_step (n, h)) ls (forward_pointers ?c1)\<rparr>"
    by (rule Cons.IH)
  finally show ?case by simp
qed

lemma update_forward_pointers_fields [simp]:
  "personal (update_forward_pointers ls n h c) = personal c"
  "versions (update_forward_pointers ls n h c) = versions c"
  "forward_pointers (update_forward_pointers ls n h c) =
     fold (fp_step (n, h)) ls (forward_pointers c)"
  "inconsistencies (update_forward_pointers ls n h c) = inconsistencies c"
  "holes (update_forward_pointers ls n h c) = holes c"
  "terminal (update_forward_pointers ls n h c) = terminal c"
  "max_known_seq_num (update_forward_pointers ls n h c) = max_known_seq_num c"
  "term_cache (update_forward_pointers ls n h c) = term_cache c"
  by (simp_all add: update_forward_pointers_eq)

lemma inc_step_only: "\<exists>is. inc_step l c = c\<lparr>inconsistencies := is\<rparr>"
proof -
  have "inc_step l c = c\<lparr>inconsistencies := inconsistencies (inc_step l c)\<rparr>"
    by (cases l) (simp add: inc_step_def split: option.splits)
  then show ?thesis by blast
qed

lemma fold_inc_step_only: "\<exists>is. fold inc_step ls c = c\<lparr>inconsistencies := is\<rparr>"
proof (induction ls arbitrary: c)
  case Nil
  have "fold inc_step [] c = c\<lparr>inconsistencies := inconsistencies c\<rparr>" by simp
  then show ?case by blast
next
  case (Cons l ls)
  obtain i1 where i1: "inc_step l c = c\<lparr>inconsistencies := i1\<rparr>"
    using inc_step_only by blast
  obtain i2 where "fold inc_step ls (c\<lparr>inconsistencies := i1\<rparr>) = c\<lparr>inconsistencies := i1\<rparr>\<lparr>inconsistencies := i2\<rparr>"
    using Cons.IH by blast
  then have "fold inc_step (l # ls) c = c\<lparr>inconsistencies := i2\<rparr>" using i1 by simp
  then show ?case by blast
qed

lemma update_inconsistencies_only:
  "\<exists>is. update_inconsistencies ls n h c = c\<lparr>inconsistencies := is\<rparr>"
proof -
  obtain i1 where i1: "fold inc_step ls c = c\<lparr>inconsistencies := i1\<rparr>"
    using fold_inc_step_only by blast
  have "update_inconsistencies ls n h c =
      c\<lparr>inconsistencies := inconsistencies (update_inconsistencies ls n h c)\<rparr>"
    using i1 by (simp add: update_inconsistencies_def inc_step_def [symmetric] Let_def)
  then show ?thesis by blast
qed

lemma update_inconsistencies_fields [simp]:
  "personal (update_inconsistencies ls n h c) = personal c"
  "versions (update_inconsistencies ls n h c) = versions c"
  "forward_pointers (update_inconsistencies ls n h c) = forward_pointers c"
  "holes (update_inconsistencies ls n h c) = holes c"
  "terminal (update_inconsistencies ls n h c) = terminal c"
  "max_known_seq_num (update_inconsistencies ls n h c) = max_known_seq_num c"
  "term_cache (update_inconsistencies ls n h c) = term_cache c"
  using update_inconsistencies_only [of ls n h c] by auto

lemma update_terminal_fields [simp]:
  "personal (snd (update_terminal d n h c)) = personal c"
  "versions (snd (update_terminal d n h c)) = versions c"
  "forward_pointers (snd (update_terminal d n h c)) = forward_pointers c"
  "inconsistencies (snd (update_terminal d n h c)) = inconsistencies c"
  "holes (snd (update_terminal d n h c)) = holes c"
  "max_known_seq_num (snd (update_terminal d n h c)) = max_known_seq_num c"
proof -
  obtain r1 c1 where r1: "calc_terminal d (Some (Links [(n, h)])) c = (r1, c1)"
    by (cases "calc_terminal d (Some (Links [(n, h)])) c")
  obtain r2 c2 where r2: "calc_terminal d (Some (terminal c1)) c1 = (r2, c2)"
    by (cases "calc_terminal d (Some (terminal c1)) c1")
  have f1: "cache_only c c1"
    using calc_terminal_frame [of c d "Some (Links [(n, h)])"] r1 by simp
  have "cache_only c1 c2"
    using calc_terminal_frame [of c1 d "Some (terminal c1)"] r2 by simp
  with f1 have f2: "cache_only c c2" by (rule cache_only_trans)
  have "\<exists>t. snd (update_terminal d n h c) = c1 \<or> snd (update_terminal d n h c) = c2
        \<or> snd (update_terminal d n h c) = c2\<lparr>terminal := t\<rparr>"
    using r1 r2 by (cases r1; cases r2) (auto simp add: update_terminal_def)
  then obtain t where t: "snd (update_terminal d n h c) = c1 \<or> snd (update_terminal d n h c) = c2
        \<or> snd (update_terminal d n h c) = c2\<lparr>terminal := t\<rparr>"
    by blast
  note a = cache_only_fields [OF f1] cache_only_fields [OF f2]
  show "personal (snd (update_terminal d n h c)) = personal c"
    using t a by auto
  show "versions (snd (update_terminal d n h c)) = versions c"
    using t a by auto
  show "forward_pointers (snd (update_terminal d n h c)) = forward_pointers c"
    using t a by auto
  show "inconsistencies (snd (update_terminal d n h c)) = inconsistencies c"
    using t a by auto
  show "holes (snd (update_terminal d n h c)) = holes c"
    using t a by auto
  show "max_known_seq_num (snd (update_terminal d n h c)) = max_known_seq_num c"
    using t a by auto
qed

lemma add_block_fields:
  "personal (snd (add_block sh d b c)) = personal c"
  "versions (snd (add_block sh d b c)) =
     AList.update (block_seq_of c b) (insert (sh (hash b))
        (case map_of (versions c) (block_seq_of c b) of None \<Rightarrow> {} | Some vs \<Rightarrow> vs))
       (versions c)"
  "forward_pointers (snd (add_block sh d b c)) =
     fold (fp_step (block_seq_of c b, sh (hash b))) (block_links_of c b) (forward_pointers c)"
  "max_known_seq_num (snd (add_block sh d b c)) =
     (if map_of (versions c) (block_seq_of c b) = None \<and> block_seq_of c b > max_known_seq_num c
      then block_seq_of c b else max_known_seq_num c)"
  "holes (snd (add_block sh d b c)) =
     holes (update_holes (block_seq_of c b) (block_links_of c b)
       (update_forward_pointers (block_links_of c b) (block_seq_of c b) (sh (hash b))
         (update_versions (block_seq_of c b) (sh (hash b)) c)))"
  by (simp_all add: add_block_def Let_def block_seq_of_def block_links_of_def)

lemma add_block_holes_versions:
  assumes "holes c \<inter> dom (map_of (versions c)) = {}"
  shows "holes (snd (add_block sh d b c)) \<inter> dom (map_of (versions (snd (add_block sh d b c)))) = {}"
proof -
  let ?n = "block_seq_of c b"
  let ?c2 = "update_forward_pointers (block_links_of c b) ?n (sh (hash b))
         (update_versions ?n (sh (hash b)) c)"
  have v2: "dom (map_of (versions ?c2)) = insert ?n (dom (map_of (versions c)))"
    by (simp add: update_conv')
  have "x \<notin> dom (map_of (versions ?c2))" if x: "x \<in> holes (update_holes ?n (block_links_of c b) ?c2)" for x
  proof -
    from update_holes_new_holes [OF x]
    have "(x \<in> holes c \<and> x \<noteq> ?n) \<or> map_of (versions ?c2) x = None" by simp
    then show ?thesis
    proof
      assume "x \<in> holes c \<and> x \<noteq> ?n"
      with assms show ?thesis unfolding v2 by auto
    next
      assume "map_of (versions ?c2) x = None"
      then show ?thesis by (simp only: domIff not_not)
    qed
  qed
  then have "holes (update_holes ?n (block_links_of c b) ?c2) \<inter> dom (map_of (versions ?c2)) = {}"
    by blast
  then show ?thesis by (simp add: add_block_fields)
qed

lemma add_blocks_holes_versions:
  "holes c \<inter> dom (map_of (versions c)) = {} \<Longrightarrow>
   holes (snd (add_blocks sh d bs c)) \<inter> dom (map_of (versions (snd (add_blocks sh d bs c)))) = {}"
proof (induction bs arbitrary: c)
  case Nil
  then show ?case by simp
next
  case (Cons b bs)
  obtain r c1 where r: "add_block sh d b c = (r, c1)" by (cases "add_block sh d b c")
  have c1: "holes c1 \<inter> dom (map_of (versions c1)) = {}"
    using add_block_holes_versions [OF Cons.prems, of sh d b] r by simp
  show ?case
  proof (cases r)
    case (Inl e)
    then show ?thesis using r c1 by simp
  next
    case (Inr u)
    then show ?thesis using r Cons.IH [OF c1] by simp
  qed
qed


section \<open>Properties\<close>

text \<open>
  C6, as amended. A freshly constructed chain, in either mode and for every cache size, has
  the single terminal entry \<open>(0, "30303030")\<close>, whose short key is the eight-character
  string \<open>30303030\<close>; \<open>max_known_seq_num\<close> is 0, and versions, forward pointers, holes,
  inconsistencies and the cache are empty.
\<close>

theorem Chain_init_fields:
  "terminal (Chain_init p n) = [(0, ''30303030'')]
   \<and> length (snd (hd (terminal (Chain_init p n)))) = 8
   \<and> max_known_seq_num (Chain_init p n) = 0
   \<and> versions (Chain_init p n) = []
   \<and> forward_pointers (Chain_init p n) = []
   \<and> holes (Chain_init p n) = {}
   \<and> inconsistencies (Chain_init p n) = {}
   \<and> items (term_cache (Chain_init p n)) = []
   \<and> personal (Chain_init p n) = p"
  by (simp add: Chain_init_def Links_def ShortKey_def LRUCache_init_def)

text \<open>
  C6, as stated, fails: the terminal of a fresh chain is not \<open>[(0, "0000")]\<close>.
\<close>

theorem Chain_init_terminal_not_0000:
  "terminal (Chain_init False 100000) \<noteq> [(0, ''0000'')]"
  by (simp add: Chain_init_def Links_def ShortKey_def)

text \<open>
  C7. In every state reached by \<open>add_block\<close> calls from a fresh chain, no hole is a key of
  \<open>versions\<close>. (A call that raised is the last of the sequence; its state is covered.)
\<close>

theorem holes_disjoint_from_versions:
  "holes (snd (add_blocks sh d bs (Chain_init p n)))
     \<inter> dom (map_of (versions (snd (add_blocks sh d bs (Chain_init p n))))) = {}"
  by (rule add_blocks_holes_versions) (simp add: Chain_init_def)

text \<open>
  C9. \<open>reconcile\<close> with a remote frontier whose terminal is empty raises \<open>ValueError\<close> (from
  \<open>max\<close> of an empty tuple) in every state, and leaves the state as it was. Read from right
  to left: a call that returns a diff had a remote frontier with a terminal entry.
\<close>

theorem reconcile_empty_terminal_raises:
  "f_terminal front = [] \<Longrightarrow> reconcile d front c = (Inl ValueError, c)"
  by (simp add: reconcile_def)

theorem reconcile_empty_terminal_raises_witness:
  "f_terminal \<lparr>f_terminal = [], f_holes = [(1, 2)], f_inconsistencies = []\<rparr> = []
   \<and> fst (reconcile 1000 \<lparr>f_terminal = [], f_holes = [(1, 2)], f_inconsistencies = []\<rparr>
            (snd (ingest [block_of 1 [genesis] ''aaaa'']))) = Inl ValueError"
  using reconcile_empty_terminal_raises
    [of "\<lparr>f_terminal = [], f_holes = [(1, 2)], f_inconsistencies = []\<rparr>" 1000
        "snd (ingest [block_of 1 [genesis] ''aaaa''])"]
  by simp

text \<open>
  C10. \<open>frontier\<close> returns the state as it was, and after \<open>reconcile\<close>, whether it returned or
  raised, every field but \<open>term_cache\<close> is as before the call.
\<close>

theorem queries_write_only_the_cache:
  "snd (frontier c) = c
   \<and> versions (snd (reconcile d front c)) = versions c
   \<and> forward_pointers (snd (reconcile d front c)) = forward_pointers c
   \<and> holes (snd (reconcile d front c)) = holes c
   \<and> inconsistencies (snd (reconcile d front c)) = inconsistencies c
   \<and> terminal (snd (reconcile d front c)) = terminal c
   \<and> max_known_seq_num (snd (reconcile d front c)) = max_known_seq_num c
   \<and> personal (snd (reconcile d front c)) = personal c"
  using cache_only_fields [OF reconcile_frame [of c d front]]
  by (simp add: frontier_def)

text \<open>
  C1, evaluated at the failing input. The blocks \<open>x\<close> and \<open>y\<close> (height 3) link to \<open>r\<close>
  (height 2), \<open>r\<close> links to \<open>p\<close> (height 1), \<open>z\<close> (height 4) links to \<open>x\<close>, and \<open>p\<close> links to
  the genesis. Ingested in the order \<open>x, y, r, z, p\<close> no call raises, and the terminal ends
  as \<open>[x, y, z]\<close> although \<open>x\<close> has the child \<open>z\<close>: the traversal from \<open>p\<close> hits the cached set
  \<open>{x, y}\<close> of \<open>r\<close>, finds \<open>y\<close> still without a child and adds the whole cached set.
\<close>

theorem stale_cache_keeps_parent_in_terminal:
  "fst (ingest [block_of 3 [(2, ''rrrr'')] ''xxxx'', block_of 3 [(2, ''rrrr'')] ''yyyy'',
                block_of 2 [(1, ''pppp'')] ''rrrr'', block_of 4 [(3, ''xxxx'')] ''zzzz'',
                block_of 1 [genesis] ''pppp'']) = Inr ()
   \<and> terminal (snd (ingest [block_of 3 [(2, ''rrrr'')] ''xxxx'', block_of 3 [(2, ''rrrr'')] ''yyyy'',
                block_of 2 [(1, ''pppp'')] ''rrrr'', block_of 4 [(3, ''xxxx'')] ''zzzz'',
                block_of 1 [genesis] ''pppp''])) = [(3, ''xxxx''), (3, ''yyyy''), (4, ''zzzz'')]
   \<and> map_of (forward_pointers (snd (ingest [block_of 3 [(2, ''rrrr'')] ''xxxx'', block_of 3 [(2, ''rrrr'')] ''yyyy'',
                block_of 2 [(1, ''pppp'')] ''rrrr'', block_of 4 [(3, ''xxxx'')] ''zzzz'',
                block_of 1 [genesis] ''pppp'']))) (3, ''xxxx'') = Some {(4, ''zzzz'')}"
  by code_simp

text \<open>
  C4, evaluated at the failing input. The local chain holds \<open>(1, aaaa)\<close> and \<open>(2, dddd)\<close>,
  the latter linking to the unknown \<open>(1, zzzz)\<close>, which is the local inconsistency. The
  remote frontier has the terminal \<open>(2, dddd)\<close> and declares height 2 a hole. The height of
  the terminal entry is covered by the remote's holes, yet \<open>(1, zzzz)\<close> is put into the
  conflicts.
\<close>

theorem escalation_ignores_remote_holes:
  "fst (reconcile 1000
          \<lparr>f_terminal = [(2, ''dddd'')], f_holes = [(2, 2)], f_inconsistencies = []\<rparr>
          (snd (ingest [block_of 1 [genesis] ''aaaa'', block_of 2 [(1, ''zzzz'')] ''dddd''])))
     = Inr \<lparr>missing = [], conflicts = [(1, ''zzzz'')]\<rparr>
   \<and> inconsistencies (snd (ingest [block_of 1 [genesis] ''aaaa'', block_of 2 [(1, ''zzzz'')] ''dddd'']))
     = {(1, ''zzzz'')}
   \<and> 2 \<in> expand_ranges [(2, 2)]"
  by code_simp

end
